theory Spec2Isabelle
  imports Complex_Main "HOL-Library.Monad_Syntax"
begin

section \<open>The gradient image emitter of \<open>src/main.cpp\<close>\<close>

text \<open>
  The program is one function, \<open>main\<close>: it writes a plain-text image header and
  \<open>256 * 256\<close> pixel lines to \<open>std::cout\<close>, a progress text per row and a final text to
  \<open>std::clog\<close>. The embedding below keeps the order of all writes (a trace of characters,
  each tagged with its stream), each of the two counting \<open>for\<close> statements as a recursive
  function on its \<open>int\<close> counter, and the \<open>double\<close> arithmetic of the pixel computation
  as exact rational arithmetic followed by rounding to the binary64 format.
\<close>

subsection \<open>The type \<open>double\<close>\<close>

text \<open>
  A finite \<open>double\<close> is modelled by the rational number it denotes. The arithmetic is that of
  IEEE 754 binary64 in the default rounding mode, which is what \<open>double\<close> is on the platforms
  this program is built for: the exact result is rounded to the nearest number with a 53-bit
  significand, ties to the even significand, with gradual underflow below \<open>2 ^ - 1022\<close>. A result
  that is not a finite number (an overflow, a division by zero) is \<open>None\<close>; the sign of a zero is
  not modelled (no operation of the program can tell the zeros apart).
\<close>

type_synonym double = rat

definition pow2 :: "int \<Rightarrow> rat" where
  "pow2 e = (if 0 \<le> e then of_int (2 ^ nat e) else 1 / of_int (2 ^ nat (- e)))"

text \<open>The number of binary digits of a positive integer.\<close>

function bitlen :: "int \<Rightarrow> int" where
  "bitlen n = (if n \<le> 0 then 0 else 1 + bitlen (n div 2))"
  by pat_completeness auto
termination
  by (relation "measure nat") auto

declare bitlen.simps [simp del]

text \<open>For \<open>0 < x\<close>, the exponent \<open>e\<close> with \<open>2 ^ e \<le> x < 2 ^ (e + 1)\<close>.\<close>

definition ilog2 :: "rat \<Rightarrow> int" where
  "ilog2 x =
     (let (p, q) = quotient_of x;
          d = bitlen p - bitlen q
      in if pow2 d \<le> x then d else d - 1)"

text \<open>Rounding a non-negative rational to the nearest integer, ties to even.\<close>

definition round_even :: "rat \<Rightarrow> int" where
  "round_even y =
     (let f = \<lfloor>y\<rfloor>; r = y - of_int f
      in if r < 1 / 2 then f
         else if 1 / 2 < r then f + 1
         else if even f then f else f + 1)"

text \<open>
  Rounding an exact result to binary64: the significand has 53 bits, the least exponent of
  the last significand bit is \<open>- 1074\<close>, and a rounded magnitude of \<open>2 ^ 1024\<close> or more
  overflows.
\<close>

definition round_double :: "rat \<Rightarrow> double option" where
  "round_double x =
     (if x = 0 then Some 0
      else
        let e = max (ilog2 \<bar>x\<bar> - 52) (- 1074);
            y = sgn x * of_int (round_even (\<bar>x\<bar> / pow2 e)) * pow2 e
        in if \<bar>y\<bar> < pow2 1024 then Some y else None)"

text \<open>The operations the program uses: a floating literal, \<open>double(n)\<close> of an \<open>int\<close>,
  \<open>/\<close>, \<open>*\<close> and \<open>static_cast<int>\<close>, which truncates toward zero and is undefined when the
  truncated value is not an \<open>int\<close> (32 bits).\<close>

definition double_lit :: "rat \<Rightarrow> double option" where
  "double_lit x = round_double x"

definition double_of_int :: "int \<Rightarrow> double option" where
  "double_of_int n = round_double (of_int n)"

definition fdiv :: "double \<Rightarrow> double \<Rightarrow> double option" where
  "fdiv a b = (if b = 0 then None else round_double (a / b))"

definition fmul :: "double \<Rightarrow> double \<Rightarrow> double option" where
  "fmul a b = round_double (a * b)"

definition int_of_double :: "double \<Rightarrow> int option" where
  "int_of_double x =
     (let t = (if 0 \<le> x then \<lfloor>x\<rfloor> else \<lceil>x\<rceil>)
      in if - (2 ^ 31) \<le> t \<and> t \<le> 2 ^ 31 - 1 then Some t else None)"

subsection \<open>Output streams\<close>

text \<open>
  What the program writes is a trace: the characters in the order the program writes them,
  each with the stream it goes to. \<open>put\<close> is one chain of \<open><<\<close> on one stream;
  \<open>written\<close> is the content of one stream. \<open>std::flush\<close> adds no character.
\<close>

datatype channel = Cout | Clog

type_synonym trace = "(channel \<times> char) list"

definition put :: "channel \<Rightarrow> string \<Rightarrow> trace \<Rightarrow> trace" where
  "put ch s tr = tr @ map (Pair ch) s"

definition written :: "channel \<Rightarrow> trace \<Rightarrow> string" where
  "written ch tr = map snd (filter (\<lambda>e. fst e = ch) tr)"

text \<open>\<open>operator<<\<close> for an \<open>int\<close>: its decimal digits, after a minus sign when negative.\<close>

definition digit :: "nat \<Rightarrow> char" where
  "digit d = char_of (48 + d)"

fun show_nat :: "nat \<Rightarrow> string" where
  "show_nat n = (if n < 10 then [digit n] else show_nat (n div 10) @ [digit (n mod 10)])"

declare show_nat.simps [simp del]

definition show_int :: "int \<Rightarrow> string" where
  "show_int i = (if i < 0 then CHR ''-'' # show_nat (nat (- i)) else show_nat (nat i))"

subsection \<open>The program\<close>

definition image_width :: int where
  "image_width = 256"

definition image_height :: int where
  "image_height = 256"

text \<open>Line 7: the header.\<close>

definition header_text :: string where
  "header_text =
     ''P3'' @ [CHR ''\<newline>''] @ show_int image_width @ '' '' @ show_int image_height
       @ [CHR ''\<newline>''] @ ''255'' @ [CHR ''\<newline>'']"

text \<open>Line 10: the text written to \<open>std::clog\<close> at the start of row \<open>i\<close>. The number
  inserted is the value of \<open>image_height - 1\<close>.\<close>

definition progress_text :: "int \<Rightarrow> string" where
  "progress_text i =
     [CHR 0x0D] @ ''Scanlines remaining: '' @ show_int (image_height - 1) @ '' ''"

text \<open>Line 24.\<close>

definition done_text :: string where
  "done_text = [CHR 0x0D] @ ''Done.                 '' @ [CHR ''\<newline>'']"

text \<open>Lines 12 and 13: \<open>double(k) / (n - 1)\<close>, where the \<open>int\<close> \<open>n - 1\<close> is converted to
  \<open>double\<close> for the division.\<close>

definition normalise :: "int \<Rightarrow> int \<Rightarrow> double option" where
  "normalise k n = do {
     a \<leftarrow> double_of_int k;
     d \<leftarrow> double_of_int (n - 1);
     fdiv a d
   }"

text \<open>Lines 16 to 18: \<open>static_cast<int>(255.999 * c)\<close>.\<close>

definition intensity :: "double \<Rightarrow> int option" where
  "intensity c = do {
     m \<leftarrow> double_lit (255999 / 1000);
     p \<leftarrow> fmul m c;
     int_of_double p
   }"

text \<open>Lines 12 to 18, the three channel values of the pixel in row \<open>i\<close> and column \<open>j\<close>.
  \<open>b\<close> is an \<open>int\<close>, converted to \<open>double\<close> for the product of line 18.\<close>

definition pixel :: "int \<Rightarrow> int \<Rightarrow> (int \<times> int \<times> int) option" where
  "pixel i j = do {
     r \<leftarrow> normalise j image_width;
     g \<leftarrow> normalise i image_height;
     let b = (0 :: int);
     ir \<leftarrow> intensity r;
     ig \<leftarrow> intensity g;
     db \<leftarrow> double_of_int b;
     ib \<leftarrow> intensity db;
     Some (ir, ig, ib)
   }"

text \<open>Line 20.\<close>

definition pixel_text :: "int \<times> int \<times> int \<Rightarrow> string" where
  "pixel_text p =
     (case p of (ir, ig, ib) \<Rightarrow>
        show_int ir @ '' '' @ show_int ig @ '' '' @ show_int ib @ [CHR ''\<newline>''])"

text \<open>Lines 11 to 21: the inner loop, from column \<open>j\<close> on. The result is \<open>None\<close> when
  the computation of a pixel leaves the finite \<open>double\<close>s or the range of \<open>int\<close>, where
  the behaviour of the program is not defined.\<close>

function cols :: "int \<Rightarrow> int \<Rightarrow> trace \<Rightarrow> trace option" where
  "cols i j tr =
     (if j < image_width then
        (case pixel i j of
           None \<Rightarrow> None
         | Some p \<Rightarrow> cols i (j + 1) (put Cout (pixel_text p) tr))
      else Some tr)"
  by pat_completeness auto
termination
  by (relation "measure (\<lambda>(i, j, tr). nat (image_width - j))") auto

declare cols.simps [simp del]

text \<open>Lines 9 to 22: the outer loop, from row \<open>i\<close> on.\<close>

function rows :: "int \<Rightarrow> trace \<Rightarrow> trace option" where
  "rows i tr =
     (if i < image_height then
        (case cols i 0 (put Clog (progress_text i) tr) of
           None \<Rightarrow> None
         | Some tr' \<Rightarrow> rows (i + 1) tr')
      else Some tr)"
  by pat_completeness auto
termination
  by (relation "measure (\<lambda>(i, tr). nat (image_height - i))") auto

declare rows.simps [simp del]

text \<open>
  \<open>main\<close>, started when the trace so far is \<open>tr\<close>: the trace at the end and the exit code
  (\<open>main\<close> has no \<open>return\<close>, so it returns 0).
\<close>

definition main :: "trace \<Rightarrow> (trace \<times> int) option" where
  "main tr =
     (case rows 0 (put Cout header_text tr) of
        None \<Rightarrow> None
      | Some tr' \<Rightarrow> Some (put Clog done_text tr', 0))"

subsection \<open>What the rows write\<close>

text \<open>
  Two closed forms, used to state what \<open>cols\<close> and \<open>rows\<close> compute: \<open>row_text i j\<close> is
  the text of the pixel lines of row \<open>i\<close> from column \<open>j\<close> on, where the pixel in column
  \<open>j\<close> of row \<open>i\<close> has the channel values \<open>(j, i, 0)\<close>; \<open>rows_trace i\<close> is the trace of
  the rows from row \<open>i\<close> on, each row being its progress text followed by its pixel lines.
  That the program computes them is \<open>cols_run\<close> and \<open>rows_run\<close> below.
\<close>

definition row_text :: "int \<Rightarrow> int \<Rightarrow> string" where
  "row_text i j = concat (map (\<lambda>j. pixel_text (j, i, 0)) [j..image_width - 1])"

definition rows_trace :: "int \<Rightarrow> trace" where
  "rows_trace i =
     concat (map (\<lambda>i. put Cout (row_text i 0) (put Clog (progress_text i) []))
       [i..image_height - 1])"


section \<open>Properties of the rounding\<close>

lemma pow2_powi: "pow2 e = 2 powi e"
  by (simp add: pow2_def power_int_def field_simps)

lemma pow2_pos: "0 < pow2 e"
  by (simp add: pow2_powi)

lemma pow2_add: "pow2 (a + b) = pow2 a * pow2 b"
  by (simp add: pow2_powi power_int_add)

lemma pow2_diff: "pow2 (a - b) = pow2 a / pow2 b"
  using pow2_add [of "a - b" b] pow2_pos [of b] by (simp add: field_simps)

lemma pow2_mono: "a \<le> b \<Longrightarrow> pow2 a \<le> pow2 b"
  by (simp add: pow2_powi power_int_increasing)

lemma pow2_less_cancel: "pow2 a < pow2 b \<Longrightarrow> a < b"
  using pow2_mono [of b a] by (cases "a < b") auto

lemma pow2_nat: "0 \<le> e \<Longrightarrow> pow2 e = of_int (2 ^ nat e)"
  by (simp add: pow2_def)

lemma bitlen_bounds:
  "0 < n \<Longrightarrow> 1 \<le> bitlen n \<and> 2 ^ nat (bitlen n - 1) \<le> n \<and> n < 2 ^ nat (bitlen n)"
proof (induction n rule: bitlen.induct)
  case (1 n)
  show ?case
  proof (cases "n = 1")
    case True
    have "bitlen 1 = 1"
      by (simp add: bitlen.simps [of 1] bitlen.simps [of 0])
    with True show ?thesis by simp
  next
    case False
    with "1.prems" have m: "0 < n div 2" by simp
    with "1.IH" "1.prems" have ih: "1 \<le> bitlen (n div 2)"
      "2 ^ nat (bitlen (n div 2) - 1) \<le> n div 2" "n div 2 < 2 ^ nat (bitlen (n div 2))"
      by simp_all
    have b: "bitlen n = 1 + bitlen (n div 2)"
      using "1.prems" by (simp add: bitlen.simps [of n])
    have e: "nat (bitlen (n div 2)) = Suc (nat (bitlen (n div 2) - 1))"
      using ih(1) by simp
    have "2 ^ nat (bitlen n - 1) \<le> n"
      using ih(2) by (simp add: b e)
    moreover have "n < 2 ^ nat (bitlen n)"
      using ih(3) ih(1) by (simp add: b nat_add_distrib)
    ultimately show ?thesis using ih(1) by (simp add: b)
  qed
qed

lemma bitlen_pow2:
  assumes "0 < n"
  shows "pow2 (bitlen n - 1) \<le> of_int n" and "of_int n < pow2 (bitlen n)"
proof -
  from bitlen_bounds [OF assms] have b: "1 \<le> bitlen n"
    and lo: "2 ^ nat (bitlen n - 1) \<le> n" and hi: "n < 2 ^ nat (bitlen n)"
    by simp_all
  have "(of_int (2 ^ nat (bitlen n - 1)) :: rat) \<le> of_int n"
    using lo by (simp only: of_int_le_iff)
  then show "pow2 (bitlen n - 1) \<le> of_int n"
    using b by (simp add: pow2_nat)
  have "(of_int n :: rat) < of_int (2 ^ nat (bitlen n))"
    using hi by (simp only: of_int_less_iff)
  then show "of_int n < pow2 (bitlen n)"
    using b by (simp add: pow2_nat)
qed

lemma ilog2_bounds:
  assumes "0 < x"
  shows "pow2 (ilog2 x) \<le> x" and "x < pow2 (ilog2 x + 1)"
proof -
  obtain p q where pq: "quotient_of x = (p, q)"
    by (cases "quotient_of x")
  then have q: "0 < q" and x: "x = of_int p / of_int q"
    by (simp_all add: quotient_of_denom_pos quotient_of_div)
  from assms q x have p: "0 < p"
    by (simp add: zero_less_divide_iff)
  define d where "d = bitlen p - bitlen q"
  have qpos: "(0::rat) < of_int q" using q by simp
  have "x < pow2 (bitlen p) / pow2 (bitlen q - 1)"
  proof -
    have "of_int p / of_int q < pow2 (bitlen p) / (of_int q :: rat)"
      using bitlen_pow2(2) [OF p] qpos by (simp add: divide_strict_right_mono)
    also have "\<dots> \<le> pow2 (bitlen p) / pow2 (bitlen q - 1)"
      using bitlen_pow2(1) [OF q] pow2_pos [of "bitlen q - 1"] pow2_pos [of "bitlen p"]
      by (simp add: frac_le)
    finally show ?thesis by (simp add: x)
  qed
  also have "pow2 (bitlen p) / pow2 (bitlen q - 1) = pow2 (d + 1)"
    using pow2_diff [of "bitlen p" "bitlen q - 1"] by (simp add: d_def algebra_simps)
  finally have hi: "x < pow2 (d + 1)" .
  have "pow2 (bitlen p - 1) / pow2 (bitlen q) \<le> of_int p / (of_int q :: rat)"
    using bitlen_pow2(1) [OF p] bitlen_pow2(2) [OF q] qpos pow2_pos [of "bitlen p - 1"]
    by (intro frac_le) simp_all
  moreover have "pow2 (bitlen p - 1) / pow2 (bitlen q) = pow2 (d - 1)"
    using pow2_diff [of "bitlen p - 1" "bitlen q"] by (simp add: d_def algebra_simps)
  ultimately have lo: "pow2 (d - 1) \<le> x" by (simp add: x)
  have e: "ilog2 x = (if pow2 d \<le> x then d else d - 1)"
    by (simp add: ilog2_def pq d_def Let_def)
  show "pow2 (ilog2 x) \<le> x"
    using lo by (simp add: e)
  show "x < pow2 (ilog2 x + 1)"
    using hi by (simp add: e)
qed

lemma round_even_error: "\<bar>of_int (round_even y) - y\<bar> \<le> 1 / 2"
proof -
  have "of_int \<lfloor>y\<rfloor> \<le> y" "y < of_int \<lfloor>y\<rfloor> + 1"
    by linarith+
  then show ?thesis
    by (auto simp: round_even_def Let_def)
qed

lemma round_even_of_int: "round_even (of_int n) = n"
  by (simp add: round_even_def)

lemma round_even_nonneg: "0 \<le> y \<Longrightarrow> 0 \<le> round_even y"
  by (auto simp: round_even_def Let_def)

lemma round_double_pos_unfold:
  "0 < x \<Longrightarrow> round_double x =
     (let e = max (ilog2 x - 52) (- 1074);
          y = of_int (round_even (x / pow2 e)) * pow2 e
      in if \<bar>y\<bar> < pow2 1024 then Some y else None)"
  by (simp add: round_double_def Let_def)

lemma round_double_pos:
  assumes "0 < x" "x \<le> 2 ^ 1000"
  shows "\<exists>y. round_double x = Some y \<and> 0 \<le> y \<and> \<bar>y - x\<bar> \<le> x / 2 ^ 53 + 1 / 2 ^ 1075"
proof -
  define e where "e = max (ilog2 x - 52) (- 1074)"
  define s where "s = pow2 e"
  define m where "m = round_even (x / s)"
  define y where "y = of_int m * s"
  have s: "0 < s" by (simp add: s_def pow2_pos)
  have "\<bar>of_int m - x / s\<bar> \<le> 1 / 2"
    unfolding m_def by (rule round_even_error)
  then have "\<bar>of_int m - x / s\<bar> * s \<le> 1 / 2 * s"
    using s by (simp only: mult_le_cancel_right_pos)
  moreover have "\<bar>of_int m - x / s\<bar> * s = \<bar>y - x\<bar>"
  proof -
    have "\<bar>of_int m - x / s\<bar> * s = \<bar>(of_int m - x / s) * s\<bar>"
      using s by (simp add: abs_mult)
    also have "(of_int m - x / s) * s = y - x"
      using s by (simp add: y_def field_simps)
    finally show ?thesis .
  qed
  ultimately have err: "\<bar>y - x\<bar> \<le> s / 2" by simp
  have sb: "s \<le> x / 2 ^ 52 + 1 / 2 ^ 1074"
  proof (cases "- 1074 \<le> ilog2 x - 52")
    case True
    then have "e = ilog2 x - 52" by (simp add: e_def)
    then have "s = pow2 (ilog2 x) / pow2 52"
      by (simp only: s_def pow2_diff)
    also have "\<dots> \<le> x / pow2 52"
      using ilog2_bounds(1) [OF assms(1)] pow2_pos [of 52] by (simp add: divide_right_mono)
    also have "pow2 52 = 2 ^ 52" by (simp add: pow2_def)
    finally show ?thesis by simp
  next
    case False
    then have "e = - 1074" by (simp add: e_def)
    then have "s = pow2 (- 1074)"
      by (simp only: s_def)
    also have "\<dots> = 1 / 2 ^ 1074" by (simp add: pow2_def)
    finally show ?thesis using assms(1) by simp
  qed
  have m0: "0 \<le> m"
    unfolding m_def using assms(1) s by (intro round_even_nonneg) simp
  then have y0: "0 \<le> y"
    using s by (simp add: y_def)
  have bound: "\<bar>y - x\<bar> \<le> x / 2 ^ 53 + 1 / 2 ^ 1075"
    using err sb by simp
  have p: "pow2 1024 = 2 ^ 1024" by (simp add: pow2_def)
  have "x / 2 ^ 53 \<le> x"
    using assms(1) by (simp add: field_simps)
  moreover have "1 / 2 ^ 1075 \<le> (1::rat)"
    by (simp add: field_simps)
  ultimately have "y \<le> 2 * x + 1"
    using bound by linarith
  also have "\<dots> \<le> 2 * 2 ^ 1000 + 1"
    using assms(2) by simp
  also have "\<dots> < (2 ^ 1024 :: rat)"
    by simp
  finally have "y < 2 ^ 1024" .
  then have "\<bar>y\<bar> < pow2 1024"
    using y0 by (simp add: p)
  then have "round_double x = Some y"
    using assms(1) by (simp add: round_double_pos_unfold Let_def y_def m_def s_def e_def)
  with y0 bound show ?thesis by blast
qed

lemma round_double_zero: "round_double 0 = Some 0"
  by (simp add: round_double_def)

lemma round_double_of_int:
  assumes "0 \<le> n" "n < 2 ^ 53"
  shows "round_double (of_int n) = Some (of_int n)"
proof (cases "n = 0")
  case True
  then show ?thesis by (simp add: round_double_zero)
next
  case False
  with assms have n: "0 < n" by simp
  define x :: rat where "x = of_int n"
  have x: "0 < x" using n by (simp add: x_def)
  have "pow2 53 = of_int (2 ^ 53)" by (simp add: pow2_def)
  then have "x < pow2 53"
    using assms(2) unfolding x_def by (simp only: of_int_less_iff)
  with ilog2_bounds(1) [OF x] have "pow2 (ilog2 x) < pow2 53" by simp
  then have hi: "ilog2 x < 53" by (rule pow2_less_cancel)
  have "pow2 0 = 1" by (simp add: pow2_def)
  moreover have "1 \<le> x" using n by (simp add: x_def)
  ultimately have "pow2 0 < pow2 (ilog2 x + 1)"
    using ilog2_bounds(2) [OF x] by simp
  then have lo: "0 \<le> ilog2 x" using pow2_less_cancel by fastforce
  define k where "k = nat (52 - ilog2 x)"
  define e where "e = ilog2 x - 52"
  have emax: "max (ilog2 x - 52) (- 1074) = e"
    using lo by (simp add: e_def)
  have "pow2 (e + (52 - ilog2 x)) = pow2 e * pow2 (52 - ilog2 x)"
    by (rule pow2_add)
  moreover have "pow2 (e + (52 - ilog2 x)) = 1"
    by (simp add: e_def pow2_def)
  moreover have "pow2 (52 - ilog2 x) = of_int (2 ^ k)"
    using hi by (simp add: pow2_nat k_def)
  ultimately have pe: "pow2 e * of_int (2 ^ k) = 1" by simp
  then have pe': "pow2 e = 1 / of_int (2 ^ k)"
    by (simp add: field_simps)
  have q: "x / pow2 e = of_int (n * 2 ^ k)"
    by (simp add: pe' x_def)
  have r: "of_int (round_even (x / pow2 e)) * pow2 e = x"
    by (simp only: q round_even_of_int) (simp add: pe' x_def)
  have "(of_int n :: rat) < of_int (2 ^ 53)"
    using assms(2) by (simp only: of_int_less_iff)
  also have "\<dots> \<le> (2 ^ 1024 :: rat)"
    by simp
  finally have "x < 2 ^ 1024" by (simp add: x_def)
  then have "\<bar>x\<bar> < pow2 1024" using x by (simp add: pow2_def)
  then show ?thesis
    using x unfolding x_def [symmetric]
    by (simp add: round_double_pos_unfold emax Let_def r)
qed

section \<open>The channel values\<close>

lemma round_double_near:
  assumes "0 < x" "x \<le> 256"
  shows "\<exists>y. round_double x = Some y \<and> 0 \<le> y
           \<and> x - 1 / 1000000000 \<le> y \<and> y \<le> x + 1 / 1000000000"
proof -
  have "x \<le> 2 ^ 1000" using assms(2) by simp
  from round_double_pos [OF assms(1) this] obtain y
    where y: "round_double x = Some y" "0 \<le> y" "\<bar>y - x\<bar> \<le> x / 2 ^ 53 + 1 / 2 ^ 1075"
    by blast
  have "x / 2 ^ 53 \<le> 256 / 2 ^ 53"
    using assms(2) by (simp add: divide_right_mono)
  moreover have "256 / 2 ^ 53 + 1 / 2 ^ 1075 \<le> (1 / 1000000000 :: rat)"
    by simp
  ultimately have "x - 1 / 1000000000 \<le> y" "y \<le> x + 1 / 1000000000"
    using y(3) by linarith+
  with y(1,2) show ?thesis by blast
qed

lemma double_lit_bounds:
  "\<exists>m. double_lit (255999 / 1000) = Some m \<and> 2559989 / 10000 \<le> m \<and> m \<le> 2559991 / 10000"
proof -
  have "(0::rat) < 255999 / 1000" "(255999 / 1000 :: rat) \<le> 256" by simp_all
  from round_double_near [OF this] obtain m
    where m: "round_double (255999 / 1000) = Some m"
      "255999 / 1000 - 1 / 1000000000 \<le> m" "m \<le> 255999 / 1000 + 1 / 1000000000"
    by blast
  have "2559989 / 10000 \<le> m" "m \<le> 2559991 / 10000"
    using m(2,3) by linarith+
  with m(1) show ?thesis
    by (simp add: double_lit_def)
qed

lemma int_of_double_floor:
  "0 \<le> p \<Longrightarrow> p < 256 \<Longrightarrow> int_of_double p = Some \<lfloor>p\<rfloor>"
proof -
  assume p: "0 \<le> p" "p < 256"
  then have "0 \<le> \<lfloor>p\<rfloor>" "\<lfloor>p\<rfloor> < 256"
    by (simp_all add: floor_less_iff)
  then show ?thesis
    using p by (simp add: int_of_double_def)
qed

lemma intensity_zero_product:
  "\<exists>m. double_lit (255999 / 1000) = Some m \<and> fmul m 0 = Some 0
     \<and> int_of_double 0 = Some 0 \<and> intensity 0 = Some 0"
proof -
  obtain m where "double_lit (255999 / 1000) = Some m"
    using double_lit_bounds by blast
  then show ?thesis
    by (simp add: intensity_def fmul_def round_double_zero int_of_double_def)
qed

lemma intensity_zero: "intensity 0 = Some 0"
  using intensity_zero_product by blast

lemma intensity_pos:
  assumes "0 < c" "c \<le> 1"
  shows "\<exists>m p. double_lit (255999 / 1000) = Some m \<and> fmul m c = Some p
           \<and> int_of_double p = Some \<lfloor>p\<rfloor> \<and> intensity c = Some \<lfloor>p\<rfloor> \<and> 0 \<le> p
           \<and> 2559989 / 10000 * c - 1 / 1000000000 \<le> p \<and> p \<le> 2559991 / 10000 * c + 1 / 1000000000"
proof -
  obtain m where m: "double_lit (255999 / 1000) = Some m"
      "2559989 / 10000 \<le> m" "m \<le> 2559991 / 10000"
    using double_lit_bounds by blast
  have lo: "2559989 / 10000 * c \<le> m * c"
    using m(2) assms(1) by (simp only: mult_right_mono less_imp_le)
  have hi: "m * c \<le> 2559991 / 10000 * c"
    using m(3) assms(1) by (simp only: mult_right_mono less_imp_le)
  have "0 < m * c" using m(2) assms(1) by simp
  moreover have "m * c \<le> 256" using hi assms(2) by linarith
  ultimately obtain p where p: "round_double (m * c) = Some p" "0 \<le> p"
      "m * c - 1 / 1000000000 \<le> p" "p \<le> m * c + 1 / 1000000000"
    using round_double_near by blast
  have "p < 256" using p(4) hi assms(2) by linarith
  with p(2) have t: "int_of_double p = Some \<lfloor>p\<rfloor>"
    by (rule int_of_double_floor)
  have f: "fmul m c = Some p"
    by (simp add: fmul_def p(1))
  have "intensity c = Some \<lfloor>p\<rfloor>"
    by (simp add: intensity_def m(1) f t)
  moreover have "2559989 / 10000 * c - 1 / 1000000000 \<le> p" "p \<le> 2559991 / 10000 * c + 1 / 1000000000"
    using p(3,4) lo hi by linarith+
  ultimately show ?thesis using p(2) m(1) f t by blast
qed


lemma intensity_one: "intensity 1 = Some 255"
proof -
  from intensity_pos [of 1] obtain p :: rat
    where p: "intensity 1 = Some \<lfloor>p\<rfloor>" "2559989 / 10000 * 1 - 1 / 1000000000 \<le> p"
      "p \<le> 2559991 / 10000 * 1 + 1 / 1000000000"
    by fastforce
  have "of_int 255 \<le> p" "p < of_int 255 + 1"
    using p(2,3) by simp_all
  then have "\<lfloor>p\<rfloor> = 255" by (simp only: floor_unique)
  with p(1) show ?thesis by simp
qed

lemma double_of_int_small: "0 \<le> n \<Longrightarrow> n \<le> 255 \<Longrightarrow> double_of_int n = Some (of_int n)"
  by (simp add: double_of_int_def round_double_of_int)

lemma normalise_zero: "normalise 0 256 = Some 0"
  using double_of_int_small [of 0] double_of_int_small [of 255]
  by (simp add: normalise_def fdiv_def round_double_zero)

lemma normalise_last: "normalise 255 256 = Some 1"
  using double_of_int_small [of 255] round_double_of_int [of 1]
  by (simp add: normalise_def fdiv_def)

lemma normalise_mid:
  assumes "0 < k" "k \<le> 254"
  shows "\<exists>c. normalise k 256 = Some c \<and> 0 < c \<and> c \<le> 1
           \<and> of_int k / 255 - 1 / 1000000000 \<le> c \<and> c \<le> of_int k / 255 + 1 / 1000000000"
proof -
  define a :: rat where "a = of_int k / 255"
  have k: "(1::rat) \<le> of_int k" "(of_int k :: rat) \<le> 254"
    using assms by simp_all
  then have a: "1 / 255 \<le> a" "a \<le> 254 / 255"
    by (simp_all add: a_def)
  then have "0 < a" "a \<le> 256" by simp_all
  from round_double_near [OF this] obtain c
    where c: "round_double a = Some c" "a - 1 / 1000000000 \<le> c" "c \<le> a + 1 / 1000000000"
    by blast
  have "normalise k 256 = Some c"
    using assms double_of_int_small [of k] double_of_int_small [of 255] c(1)
    by (simp add: normalise_def fdiv_def a_def)
  moreover have "0 < c" "c \<le> 1" "a - 1 / 1000000000 \<le> c" "c \<le> a + 1 / 1000000000"
    using c(2,3) a by linarith+
  ultimately show ?thesis unfolding a_def by blast
qed

lemma channel_mid:
  assumes "0 < k" "k \<le> 254"
  shows "\<exists>c. normalise k 256 = Some c \<and> intensity c = Some k"
proof -
  from normalise_mid [OF assms] obtain c
    where c: "normalise k 256 = Some c" "0 < c" "c \<le> 1"
      "of_int k / 255 - 1 / 1000000000 \<le> c" "c \<le> of_int k / 255 + 1 / 1000000000"
    by blast
  from intensity_pos [OF c(2,3)] obtain p
    where p: "intensity c = Some \<lfloor>p\<rfloor>"
      "2559989 / 10000 * c - 1 / 1000000000 \<le> p" "p \<le> 2559991 / 10000 * c + 1 / 1000000000"
    by blast
  have k: "(1::rat) \<le> of_int k" "(of_int k :: rat) \<le> 254"
    using assms by simp_all
  have "of_int k \<le> p"
    using p(2) c(4) k by linarith
  moreover have "p < of_int k + 1"
    using p(3) c(5) k by linarith
  ultimately have "\<lfloor>p\<rfloor> = k" by (simp only: floor_unique)
  with c(1) p(1) show ?thesis by simp
qed

lemma channel_value:
  assumes "0 \<le> k" "k \<le> 255"
  shows "\<exists>c. normalise k 256 = Some c \<and> 0 \<le> c \<and> c \<le> 1 \<and> intensity c = Some k"
proof -
  consider "k = 0" | "k = 255" | "0 < k" "k \<le> 254"
    using assms by linarith
  then show ?thesis
  proof cases
    case 1
    then show ?thesis by (simp add: normalise_zero intensity_zero)
  next
    case 2
    then show ?thesis by (simp add: normalise_last intensity_one)
  next
    case 3
    from normalise_mid [OF 3] channel_mid [OF 3] show ?thesis by fastforce
  qed
qed

section \<open>The inner and the outer loop\<close>

lemma pixel_value:
  assumes "0 \<le> i" "i \<le> 255" "0 \<le> j" "j \<le> 255"
  shows "pixel i j = Some (j, i, 0)"
proof -
  from channel_value [OF assms(3,4)] obtain r
    where r: "normalise j 256 = Some r" "intensity r = Some j" by blast
  from channel_value [OF assms(1,2)] obtain g
    where g: "normalise i 256 = Some g" "intensity g = Some i" by blast
  have b: "double_of_int 0 = Some 0"
    using double_of_int_small [of 0] by simp
  show ?thesis
    by (simp add: pixel_def image_width_def image_height_def r g b intensity_zero)
qed

lemma cols_run:
  "0 \<le> i \<Longrightarrow> i \<le> 255 \<Longrightarrow> 0 \<le> j \<Longrightarrow>
     cols i j tr = Some (put Cout (row_text i j) tr)"
proof (induction i j tr rule: cols.induct)
  case (1 i j tr)
  show ?case
  proof (cases "j < image_width")
    case True
    then have j: "j \<le> 255" by (simp add: image_width_def)
    with "1.prems" have p: "pixel i j = Some (j, i, 0)"
      by (simp add: pixel_value)
    have "cols i (j + 1) (put Cout (pixel_text (j, i, 0)) tr)
        = Some (put Cout (row_text i (j + 1)) (put Cout (pixel_text (j, i, 0)) tr))"
      using "1.IH" [OF True p] "1.prems" by simp
    moreover have "row_text i j = pixel_text (j, i, 0) @ row_text i (j + 1)"
      using True by (simp add: row_text_def upto_rec1 [of j])
    ultimately show ?thesis
      using True p by (simp add: cols.simps [of i j] put_def)
  next
    case False
    then show ?thesis
      by (simp add: cols.simps [of i j] row_text_def put_def)
  qed
qed

lemma rows_run:
  "0 \<le> i \<Longrightarrow> rows i tr = Some (tr @ rows_trace i)"
proof (induction i tr rule: rows.induct)
  case (1 i tr)
  show ?case
  proof (cases "i < image_height")
    case True
    then have i: "i \<le> 255" by (simp add: image_height_def)
    define tr' where "tr' = put Cout (row_text i 0) (put Clog (progress_text i) tr)"
    have c: "cols i 0 (put Clog (progress_text i) tr) = Some tr'"
      using "1.prems" i by (simp add: cols_run tr'_def)
    have "rows (i + 1) tr' = Some (tr' @ rows_trace (i + 1))"
      using "1.IH" [OF True c] "1.prems" by simp
    moreover have "rows_trace i
        = put Cout (row_text i 0) (put Clog (progress_text i) []) @ rows_trace (i + 1)"
      using True by (simp add: rows_trace_def upto_rec1 [of i])
    ultimately show ?thesis
      using True c by (simp add: rows.simps [of i] tr'_def put_def)
  next
    case False
    then show ?thesis
      by (simp add: rows.simps [of i] rows_trace_def)
  qed
qed

lemma main_run:
  "main tr = Some (put Clog done_text (put Cout header_text tr @ rows_trace 0), 0)"
  by (simp add: main_def rows_run)

section \<open>The two streams\<close>

lemma written_append: "written ch (a @ b) = written ch a @ written ch b"
  by (simp add: written_def)

lemma written_tagged: "written ch (map (Pair ch') s) = (if ch = ch' then s else [])"
  by (induction s) (auto simp: written_def)

lemma written_put: "written ch (put ch' s tr) = written ch tr @ (if ch = ch' then s else [])"
  by (simp add: put_def written_append written_tagged)

lemma written_concat: "written ch (concat xs) = concat (map (written ch) xs)"
  by (induction xs) (simp_all add: written_append, simp add: written_def)

lemma written_Cout_rows:
  "written Cout (rows_trace i) = concat (map (\<lambda>i. row_text i 0) [i..image_height - 1])"
  by (simp add: rows_trace_def written_concat written_put o_def) (simp add: written_def)

lemma written_Clog_rows:
  "written Clog (rows_trace i) = concat (map progress_text [i..image_height - 1])"
  by (simp add: rows_trace_def written_concat written_put o_def) (simp add: written_def)

lemma upto_shift: "- 1 \<le> m \<Longrightarrow> [a..a + m] = map (\<lambda>j. a + j) [0..m]"
proof (induction m rule: int_ge_induct)
  case base
  show ?case by simp
next
  case (step m)
  have "[a..a + (m + 1)] = [a..a + m] @ [a + (m + 1)]"
    using step.hyps upto_rec2 [of a "a + (m + 1)"] by (simp add: add.assoc)
  moreover have "[0..m + 1] = [0..m] @ [m + 1]"
    using step.hyps upto_rec2 [of 0 "m + 1"] by simp
  ultimately show ?case
    using step.IH by simp
qed

lemma concat_row_major:
  assumes w: "0 < w"
  shows "0 \<le> n \<Longrightarrow>
     concat (map (\<lambda>i. concat (map (f i) [0..w - 1])) [0..n - 1])
       = concat (map (\<lambda>k. f (k div w) (k mod w)) [0..n * w - 1])"
proof (induction n rule: int_ge_induct)
  case base
  show ?case by simp
next
  case (step n)
  have r: "[0..n + 1 - 1] = [0..n - 1] @ [n]"
    using step.hyps upto_rec2 [of 0 n] by simp
  have "0 \<le> n * w" using step.hyps w by simp
  moreover have "n * w \<le> (n + 1) * w - 1" using w by (simp add: algebra_simps)
  ultimately have k: "[0..(n + 1) * w - 1] = [0..n * w - 1] @ [n * w..(n + 1) * w - 1]"
    by (rule upto_split1)
  have "[n * w..(n + 1) * w - 1] = [n * w..n * w + (w - 1)]"
    by (simp add: algebra_simps)
  also have "\<dots> = map (\<lambda>j. n * w + j) [0..w - 1]"
    using w by (intro upto_shift) simp
  finally have "map (\<lambda>k. f (k div w) (k mod w)) [n * w..(n + 1) * w - 1]
      = map (\<lambda>j. f ((n * w + j) div w) ((n * w + j) mod w)) [0..w - 1]"
    by (simp add: o_def)
  also have "\<dots> = map (f n) [0..w - 1]"
  proof (rule map_cong [OF refl])
    fix j assume "j \<in> set [0..w - 1]"
    then have j: "0 \<le> j" "j < w" by simp_all
    then have "(n * w + j) div w = n" "(n * w + j) mod w = j"
      using w by simp_all
    then show "f ((n * w + j) div w) ((n * w + j) mod w) = f n j" by simp
  qed
  finally show ?case
    using step.IH by (simp only: r k map_append concat_append) simp
qed

lemma pixel_rows_flat:
  "concat (map (\<lambda>i. row_text i 0) [0..image_height - 1])
     = concat (map (\<lambda>k. pixel_text (k mod image_width, k div image_width, 0))
         [0..image_width * image_height - 1])"
proof -
  have "0 < image_width" "0 \<le> image_height"
    by (simp_all add: image_width_def image_height_def)
  from concat_row_major [OF this, of "\<lambda>i j. pixel_text (j, i, 0)"] show ?thesis
    by (simp add: row_text_def mult.commute)
qed

lemma main_written_Cout:
  "\<exists>tr'. main tr = Some (tr', 0) \<and>
     written Cout tr' = written Cout tr @ header_text
       @ concat (map (\<lambda>i. row_text i 0) [0..image_height - 1])"
  by (simp add: main_run written_put written_append written_Cout_rows)

lemma main_written_Clog:
  "\<exists>tr'. main tr = Some (tr', 0) \<and>
     written Clog tr' = written Clog tr
       @ concat (map progress_text [0..image_height - 1]) @ done_text"
  by (simp add: main_run written_put written_append written_Clog_rows)

lemma pixel_at_index:
  assumes "0 \<le> k" "k \<le> image_width * image_height - 1"
  shows "pixel (k div image_width) (k mod image_width)
     = Some (k mod image_width, k div image_width, 0)"
proof -
  have "0 \<le> k div 256" "k div 256 \<le> 255" "0 \<le> k mod 256" "k mod 256 \<le> 255"
    using assms by (simp_all add: image_width_def image_height_def)
  then show ?thesis
    by (simp add: image_width_def pixel_value)
qed

section \<open>Lines and texts\<close>

lemma digit_not_newline: "d < 10 \<Longrightarrow> digit d \<noteq> CHR ''\<newline>''"
proof
  assume d: "d < 10" and "digit d = CHR ''\<newline>''"
  then have "of_char (digit d) = (of_char (CHR ''\<newline>'') :: nat)" by simp
  then show False using d by (simp add: digit_def)
qed

lemma show_nat_no_newline: "CHR ''\<newline>'' \<notin> set (show_nat n)"
proof (induction n rule: show_nat.induct)
  case (1 n)
  show ?case
  proof (cases "n < 10")
    case True
    then show ?thesis
      using digit_not_newline [of n] by (auto simp: show_nat.simps [of n])
  next
    case False
    then show ?thesis
      using "1.IH" digit_not_newline [of "n mod 10"] by (auto simp: show_nat.simps [of n])
  qed
qed

lemma show_int_no_newline: "CHR ''\<newline>'' \<notin> set (show_int i)"
  by (simp add: show_int_def show_nat_no_newline)

lemma filter_absent: "x \<notin> set xs \<Longrightarrow> filter (\<lambda>c. c = x) xs = []"
  by (induction xs) auto

lemma pixel_text_newlines:
  "filter (\<lambda>c. c = CHR ''\<newline>'') (pixel_text p) = [CHR ''\<newline>'']"
  by (cases p) (simp add: pixel_text_def filter_absent show_int_no_newline)

lemma pixel_text_last: "last (pixel_text p) = CHR ''\<newline>''"
  by (cases p) (simp add: pixel_text_def)

lemma count_concat_lines:
  "length (filter (\<lambda>c. c = CHR ''\<newline>'') (concat (map pixel_text ps))) = length ps"
  by (induction ps) (simp_all add: pixel_text_newlines)


lemma show_int_255: "show_int 255 = ''255''"
  by code_simp

lemma show_int_256: "show_int 256 = ''256''"
  by code_simp

lemma header_text_eq:
  "header_text = ''P3'' @ [CHR ''\<newline>''] @ ''256 256'' @ [CHR ''\<newline>''] @ ''255'' @ [CHR ''\<newline>'']"
  by (simp add: header_text_def image_width_def image_height_def show_int_256)

lemma progress_text_eq: "progress_text i = CHR 0x0D # ''Scanlines remaining: 255 ''"
  by (simp add: progress_text_def image_height_def show_int_255)

lemma pixel_list:
  "map (\<lambda>k. pixel (k div image_width) (k mod image_width)) [0..image_width * image_height - 1]
     = map Some (map (\<lambda>k. (k mod image_width, k div image_width, 0))
         [0..image_width * image_height - 1])"
  by (simp add: o_def pixel_at_index)

section \<open>Two values of the model, computed\<close>

text \<open>
  The \<open>double\<close> nearest to \<open>255.999\<close> has the significand \<open>9007164070368903\<close> and the
  exponent \<open>- 45\<close> (the bits \<open>0x406FFFF7CED91687\<close>), and \<open>1.0 / 255\<close> is the \<open>double\<close> with
  the significand \<open>0x10101010101010\<close> and the exponent \<open>- 60\<close>: the rounding of the model
  computes both.
\<close>

lemma double_lit_value:
  "double_lit (255999 / 1000) = Some (9007164070368903 / 2 ^ 45)"
  by code_simp

lemma normalise_one_value:
  "normalise 1 image_width = Some (4521260802379792 / 2 ^ 60)"
  by code_simp

section \<open>The claims of the specification\<close>

text \<open>
  Claim C1. The claim reads: at the start of every row \<open>i\<close> the progress text carries the
  number of scanlines remaining, \<open>image_height - i\<close>. The program writes a progress text
  before the pixels of each row (\<open>rows_run\<close>), but the number in it is the value of
  \<open>image_height - 1\<close>, the same 255 in all 256 rows: the whole content of \<open>std::clog\<close>
  after a run is 256 copies of one text, then the final text.
\<close>

theorem progress_count_constant:
  "\<exists>tr. main [] = Some (tr, 0) \<and>
     written Clog tr
       = concat (replicate 256 (CHR 0x0D # ''Scanlines remaining: 255 '')) @ done_text"
proof -
  have pt: "progress_text = (\<lambda>i. CHR 0x0D # ''Scanlines remaining: 255 '')"
    by (rule ext) (rule progress_text_eq)
  have "map progress_text [0..image_height - 1]
      = replicate 256 (CHR 0x0D # ''Scanlines remaining: 255 '')"
    unfolding pt by (simp add: map_replicate_const image_height_def)
  with main_written_Clog [of "[]"] show ?thesis
    by (simp add: written_def)
qed

text \<open>
  Claim C6. The content of \<open>std::cout\<close> after a run starts with the three lines \<open>P3\<close>,
  \<open>256 256\<close> and \<open>255\<close>, and the pixel lines of the rows 0 to 255 follow.
\<close>

theorem header_lines:
  "\<exists>tr. main [] = Some (tr, 0) \<and>
     written Cout tr
       = ''P3'' @ [CHR ''\<newline>''] @ ''256 256'' @ [CHR ''\<newline>''] @ ''255'' @ [CHR ''\<newline>'']
         @ concat (map (\<lambda>i. row_text i 0) [0..image_height - 1])"
  using main_written_Cout [of "[]"] by (simp add: header_text_eq written_def)

text \<open>
  Claim C2. After the header, \<open>std::cout\<close> holds the texts of 65536 pixels, the \<open>k\<close>-th
  being that of the pixel in row \<open>k div image_width\<close> and column \<open>k mod image_width\<close>; the
  text of a pixel is one line (it ends with its only newline), and the output has
  \<open>3 + 65536\<close> lines in all.
\<close>

theorem pixel_lines_row_major:
  "\<exists>tr ps. main [] = Some (tr, 0)
     \<and> map Some ps
         = map (\<lambda>k. pixel (k div image_width) (k mod image_width))
             [0..image_width * image_height - 1]
     \<and> length ps = 65536
     \<and> written Cout tr = header_text @ concat (map pixel_text ps)
     \<and> (\<forall>p. filter (\<lambda>c. c = CHR ''\<newline>'') (pixel_text p) = [CHR ''\<newline>'']
            \<and> last (pixel_text p) = CHR ''\<newline>'')
     \<and> length (filter (\<lambda>c. c = CHR ''\<newline>'') (written Cout tr)) = 3 + 65536"
proof -
  define ps where
    "ps = map (\<lambda>k. (k mod image_width, k div image_width, 0 :: int))
            [0..image_width * image_height - 1]"
  obtain tr where tr: "main [] = Some (tr, 0)"
    "written Cout tr = header_text @ concat (map (\<lambda>i. row_text i 0) [0..image_height - 1])"
    using main_written_Cout [of "[]"] by (auto simp: written_def)
  have out: "written Cout tr = header_text @ concat (map pixel_text ps)"
    by (simp add: tr(2) pixel_rows_flat ps_def o_def)
  have len: "length ps = 65536"
    by (simp add: ps_def image_width_def image_height_def)
  have some: "map Some ps
      = map (\<lambda>k. pixel (k div image_width) (k mod image_width))
          [0..image_width * image_height - 1]"
    unfolding ps_def by (rule pixel_list [symmetric])
  have "length (filter (\<lambda>c. c = CHR ''\<newline>'') (written Cout tr)) = 3 + length ps"
    by (simp add: out count_concat_lines) (simp add: header_text_eq)
  with tr(1) some len out show ?thesis
    by (auto simp: pixel_text_newlines pixel_text_last)
qed





text \<open>
  Claim C5. Within a row the red value does not decrease from a column \<open>j\<close> to a later
  column \<open>j'\<close>; within a column the green value does not decrease from a row \<open>i\<close> to a
  later row \<open>i'\<close>; the blue value of every pixel is 0.
\<close>

theorem channels_monotone:
  assumes "0 \<le> i" "i \<le> i'" "i' < image_height" "0 \<le> j" "j \<le> j'" "j' < image_width"
  shows "\<exists>r g b. pixel i j = Some (r, g, b) \<and> b = 0
    \<and> (\<exists>r' g' b'. pixel i j' = Some (r', g', b') \<and> r \<le> r' \<and> b' = 0)
    \<and> (\<exists>r' g' b'. pixel i' j = Some (r', g', b') \<and> g \<le> g' \<and> b' = 0)"
  using assms by (simp add: pixel_value image_width_def image_height_def)

text \<open>The theorem at the rows 10 and 100 and the columns 20 and 200.\<close>

theorem channels_monotone_witness:
  "\<exists>r g b. pixel 10 20 = Some (r, g, b) \<and> b = 0
    \<and> (\<exists>r' g' b'. pixel 10 200 = Some (r', g', b') \<and> r \<le> r' \<and> b' = 0)
    \<and> (\<exists>r' g' b'. pixel 100 20 = Some (r', g', b') \<and> g \<le> g' \<and> b' = 0)"
  using channels_monotone [of 10 100 20 200] by (simp add: image_width_def image_height_def)



text \<open>
  Claim C9. The divisors \<open>image_width - 1\<close> and \<open>image_height - 1\<close> are not zero, as
  \<open>int\<close> and as \<open>double\<close>, and for every pixel of the image both divisions have a finite
  result between 0 and 1 (a division by zero has the result \<open>None\<close> in \<open>fdiv\<close>).
\<close>

theorem normalised_in_unit:
  assumes "0 \<le> i" "i < image_height" "0 \<le> j" "j < image_width"
  shows "image_width - 1 \<noteq> 0 \<and> image_height - 1 \<noteq> 0
    \<and> (\<exists>d. double_of_int (image_width - 1) = Some d \<and> d \<noteq> 0)
    \<and> (\<exists>d. double_of_int (image_height - 1) = Some d \<and> d \<noteq> 0)
    \<and> (\<exists>r. normalise j image_width = Some r \<and> 0 \<le> r \<and> r \<le> 1)
    \<and> (\<exists>g. normalise i image_height = Some g \<and> 0 \<le> g \<and> g \<le> 1)"
proof -
  have i: "i \<le> 255" and j: "j \<le> 255"
    using assms by (simp_all add: image_width_def image_height_def)
  from channel_value [OF assms(3) j]
  have "\<exists>r. normalise j image_width = Some r \<and> 0 \<le> r \<and> r \<le> 1"
    by (auto simp: image_width_def)
  moreover from channel_value [OF assms(1) i]
  have "\<exists>g. normalise i image_height = Some g \<and> 0 \<le> g \<and> g \<le> 1"
    by (auto simp: image_height_def)
  ultimately show ?thesis
    using double_of_int_small [of 255] by (simp add: image_width_def image_height_def)
qed

text \<open>The theorem at row 3, column 7.\<close>

theorem normalised_in_unit_witness:
  "image_width - 1 \<noteq> 0 \<and> image_height - 1 \<noteq> 0
    \<and> (\<exists>d. double_of_int (image_width - 1) = Some d \<and> d \<noteq> 0)
    \<and> (\<exists>d. double_of_int (image_height - 1) = Some d \<and> d \<noteq> 0)
    \<and> (\<exists>r. normalise 7 image_width = Some r \<and> 0 \<le> r \<and> r \<le> 1)
    \<and> (\<exists>g. normalise 3 image_height = Some g \<and> 0 \<le> g \<and> g \<le> 1)"
  using normalised_in_unit [of 3 7] by (simp add: image_width_def image_height_def)

text \<open>
  Claim C10. The trace of a run ends with the text of line 24 on \<open>std::clog\<close>: a carriage
  return, \<open>Done.\<close>, 17 spaces and a newline, one line. Everything written to
  \<open>std::cout\<close>, the header and the \<open>65536\<close> pixel lines of all 256 rows, comes before
  it. What \<open>std::clog\<close> holds before it are the 256 progress texts, in which no \<open>D\<close>
  occurs, so the final text is written once. The exit code is 0.
\<close>

theorem done_after_all_rows:
  "\<exists>pre. main []
         = Some (pre @ map (Pair Clog)
             (CHR 0x0D # ''Done.                 '' @ [CHR ''\<newline>'']), 0)
     \<and> written Cout pre
         = ''P3'' @ [CHR ''\<newline>''] @ ''256 256'' @ [CHR ''\<newline>'']
           @ ''255'' @ [CHR ''\<newline>'']
           @ concat (map (\<lambda>i. row_text i 0) [0..image_height - 1])
     \<and> written Clog pre
         = concat (replicate 256 (CHR 0x0D # ''Scanlines remaining: 255 ''))
     \<and> length (filter (\<lambda>c. c = CHR ''\<newline>'') (written Cout pre)) = 3 + 65536
     \<and> CHR ''D'' \<notin> set (written Clog pre)"
proof -
  define pre where "pre = put Cout header_text [] @ rows_trace 0"
  have "main [] = Some (pre @ map (Pair Clog) done_text, 0)"
    by (simp add: main_run pre_def put_def)
  then have m: "main []
      = Some (pre @ map (Pair Clog)
          (CHR 0x0D # ''Done.                 '' @ [CHR ''\<newline>'']), 0)"
    by (simp add: done_text_def)
  have c: "written Cout pre
      = header_text @ concat (map (\<lambda>i. row_text i 0) [0..image_height - 1])"
    by (simp add: pre_def written_append written_put written_Cout_rows) (simp add: written_def)
  have pt: "progress_text = (\<lambda>i. CHR 0x0D # ''Scanlines remaining: 255 '')"
    by (rule ext) (rule progress_text_eq)
  have r: "map progress_text [0..image_height - 1]
      = replicate 256 (CHR 0x0D # ''Scanlines remaining: 255 '')"
    unfolding pt by (simp add: map_replicate_const image_height_def)
  have "written Clog pre = concat (map progress_text [0..image_height - 1])"
    by (simp add: pre_def written_append written_put written_Clog_rows) (simp add: written_def)
  then have l: "written Clog pre
      = concat (replicate 256 (CHR 0x0D # ''Scanlines remaining: 255 ''))"
    by (simp only: r)
  have "length (map (\<lambda>k. (k mod image_width, k div image_width, 0 :: int))
      [0..image_width * image_height - 1]) = 65536"
    by (simp add: image_width_def image_height_def)
  then have n: "length (filter (\<lambda>c. c = CHR ''\<newline>'') (written Cout pre)) = 3 + 65536"
    using count_concat_lines [of "map (\<lambda>k. (k mod image_width, k div image_width, 0))
      [0..image_width * image_height - 1]"]
    by (simp add: c pixel_rows_flat o_def) (simp add: header_text_eq)
  have d: "CHR ''D'' \<notin> set (written Clog pre)"
    by (simp only: l) simp
  have c': "written Cout pre
      = ''P3'' @ [CHR ''\<newline>''] @ ''256 256'' @ [CHR ''\<newline>'']
        @ ''255'' @ [CHR ''\<newline>'']
        @ concat (map (\<lambda>i. row_text i 0) [0..image_height - 1])"
    by (simp add: c header_text_eq)
  from m c' l n d show ?thesis by blast
qed

end
